theory Spec2Isabelle
  imports Complex_Main "HOL-Library.Word"
begin

unbundle bit_operations_syntax

section \<open>The stream reader of \<open>bigcrush_wrapper.c\<close>\<close>

type_synonym uint8_t = "8 word"
type_synonym uint32_t = "32 word"
type_synonym ulong = "64 word"

text \<open>\<^verbatim>\<open>#define BUFFER_SIZE 4096\<close>\<close>

definition BUFFER_SIZE :: nat where
  "BUFFER_SIZE = 4096"

text \<open>
  The three file-scope variables \<^verbatim>\<open>buffer\<close>, \<^verbatim>\<open>buffer_pos\<close> and \<^verbatim>\<open>buffer_len\<close>,
  together with what is still pending on standard input. The two \<^verbatim>\<open>size_t\<close> indices never
  exceed \<open>BUFFER_SIZE\<close>, so they are natural numbers here.

  Standard input is a list of chunks: the pieces in which the producer's bytes become
  available to the reading side. The empty list is end-of-stream. An empty chunk stands for
  a read that delivers nothing (a read error), which the program cannot tell from
  end-of-stream.
\<close>

record reader =
  buffer :: "uint8_t list"
  buffer_pos :: nat
  buffer_len :: nat
  stdin :: "uint8_t list list"

text \<open>
  \<^verbatim>\<open>fread(buffer, 1, n, stdin)\<close> of the C library, as the program uses it: it delivers at most
  \<open>n\<close> bytes of the chunk at the head of the stream and leaves the remainder of that chunk
  pending; at end-of-stream it delivers nothing. The result is the bytes stored and the
  stream that remains. A C library that fills the buffer whenever enough input follows is
  the case of chunks of \<open>n\<close> bytes with a shorter last one; the chunks here may be cut
  anywhere, and the theorems hold for every cut.
\<close>

fun fread :: "nat \<Rightarrow> uint8_t list list \<Rightarrow> uint8_t list \<times> uint8_t list list" where
  "fread n [] = ([], [])"
| "fread n (c # cs) = (if length c \<le> n then (c, cs) else (take n c, drop n c # cs))"

text \<open>
  \<^verbatim>\<open>static uint8_t buffer[BUFFER_SIZE];\<close> (zero-initialised),
  \<^verbatim>\<open>static size_t buffer_pos = BUFFER_SIZE;  /* Start empty to trigger first read */\<close>,
  \<^verbatim>\<open>static size_t buffer_len = 0;\<close>
\<close>

definition initial_reader :: "uint8_t list list \<Rightarrow> reader" where
  "initial_reader cs =
     \<lparr>buffer = replicate BUFFER_SIZE 0, buffer_pos = BUFFER_SIZE, buffer_len = 0, stdin = cs\<rparr>"

text \<open>
  \<^verbatim>\<open>refill_buffer\<close>: the bytes read overwrite the front of the buffer, the rest of the
  array keeps its old contents. The result is \<^verbatim>\<open>buffer_len > 0\<close> and the new state.
\<close>

definition refill_buffer :: "reader \<Rightarrow> bool \<times> reader" where
  "refill_buffer s =
     (case fread BUFFER_SIZE (stdin s) of
        (got, rest) \<Rightarrow>
          (0 < length got,
           s\<lparr>buffer := got @ drop (length got) (buffer s),
             buffer_len := length got,
             buffer_pos := 0,
             stdin := rest\<rparr>))"

text \<open>\<^verbatim>\<open>exit(status)\<close> after a message on standard error.\<close>

datatype exit = Exit (exit_status: int) (exit_stderr: string)

definition newline :: string where
  "newline = [CHR 0x0A]"

definition stdin_exhausted :: exit where
  "stdin_exhausted = Exit 1 (''Error: stdin exhausted'' @ newline)"

text \<open>
  The body of the loop of \<^verbatim>\<open>read_uint32\<close> up to the fetch of the byte: the test
  \<^verbatim>\<open>buffer_pos >= buffer_len\<close>, the refill with its \<^verbatim>\<open>exit(1)\<close>, and
  \<^verbatim>\<open>buffer[buffer_pos++]\<close>.
\<close>

definition next_byte :: "reader \<Rightarrow> exit + (uint8_t \<times> reader)" where
  "next_byte s =
     (if buffer_len s \<le> buffer_pos s then
        (case refill_buffer s of
           (ok, s') \<Rightarrow>
             if \<not> ok then Inl stdin_exhausted
             else Inr (buffer s' ! buffer_pos s', s'\<lparr>buffer_pos := buffer_pos s' + 1\<rparr>))
      else Inr (buffer s ! buffer_pos s, s\<lparr>buffer_pos := buffer_pos s + 1\<rparr>))"

text \<open>
  \<^verbatim>\<open>for (int i = 0; i < 4; i++) { ...; value |= ((uint32_t)buffer[buffer_pos++]) << (i * 8); }\<close>
\<close>

function read_uint32_loop :: "nat \<Rightarrow> uint32_t \<Rightarrow> reader \<Rightarrow> exit + (uint32_t \<times> reader)" where
  "read_uint32_loop i v s =
     (if i < 4 then
        (case next_byte s of
           Inl e \<Rightarrow> Inl e
         | Inr (b, s') \<Rightarrow> read_uint32_loop (i + 1) (v OR push_bit (i * 8) (ucast b)) s')
      else Inr (v, s))"
  by pat_completeness auto
termination
  by (relation "measure (\<lambda>(i, v, s). 4 - i)") auto

declare read_uint32_loop.simps [simp del]

definition read_uint32 :: "reader \<Rightarrow> exit + (uint32_t \<times> reader)" where
  "read_uint32 s = read_uint32_loop 0 0 s"

text \<open>A caller that draws \<open>n\<close> values in a row, stopping at the first exit.\<close>

fun read_uint32_times :: "nat \<Rightarrow> reader \<Rightarrow> exit + (uint32_t list \<times> reader)" where
  "read_uint32_times 0 s = Inr ([], s)"
| "read_uint32_times (Suc n) s =
     (case read_uint32 s of
        Inl e \<Rightarrow> Inl e
      | Inr (v, s') \<Rightarrow>
          (case read_uint32_times n s' of
             Inl e \<Rightarrow> Inl e
           | Inr (vs, s'') \<Rightarrow> Inr (v # vs, s'')))"

section \<open>The generator callbacks\<close>

text \<open>
  \<^verbatim>\<open>return (unsigned long)read_uint32();\<close> The conversion extends with zeros
  (\<^verbatim>\<open>unsigned long\<close> has 64 bits on the LP64 platforms the build instructions address).
\<close>

definition stdin_bits :: "reader \<Rightarrow> exit + (ulong \<times> reader)" where
  "stdin_bits s =
     (case read_uint32 s of Inl e \<Rightarrow> Inl e | Inr (v, s') \<Rightarrow> Inr (ucast v, s'))"

text \<open>
  \<^verbatim>\<open>return read_uint32() / 4294967296.0;\<close> The operand is converted to \<^verbatim>\<open>double\<close> and
  divided by \<open>2^32\<close>. Both steps are exact in binary64 (a 32-bit integer fits the 53-bit
  significand, and the division only changes the exponent), so the value returned is the
  real number below; \<open>u01_is_binary64\<close> proves that it is a binary64 number.
\<close>

definition u01_of :: "uint32_t \<Rightarrow> real" where
  "u01_of v = real (unat v) / 4294967296"

definition stdin_u01 :: "reader \<Rightarrow> exit + (real \<times> reader)" where
  "stdin_u01 s =
     (case read_uint32 s of Inl e \<Rightarrow> Inl e | Inr (v, s') \<Rightarrow> Inr (u01_of v, s'))"

text \<open>
  The battery calls the two callbacks in an order of its own. A run of such calls, with
  what each returned:
\<close>

datatype call = GetBits | GetU01

datatype drawn = Bits ulong | U01 real

fun run_calls :: "call list \<Rightarrow> reader \<Rightarrow> exit + (drawn list \<times> reader)" where
  "run_calls [] s = Inr ([], s)"
| "run_calls (GetBits # cs) s =
     (case stdin_bits s of
        Inl e \<Rightarrow> Inl e
      | Inr (x, s') \<Rightarrow>
          (case run_calls cs s' of Inl e \<Rightarrow> Inl e | Inr (ds, s'') \<Rightarrow> Inr (Bits x # ds, s'')))"
| "run_calls (GetU01 # cs) s =
     (case stdin_u01 s of
        Inl e \<Rightarrow> Inl e
      | Inr (x, s') \<Rightarrow>
          (case run_calls cs s' of Inl e \<Rightarrow> Inl e | Inr (ds, s'') \<Rightarrow> Inr (U01 x # ds, s'')))"

section \<open>Specification-level notions\<close>

text \<open>
  The bytes of the input that no call has consumed yet: the unread part of the buffer,
  then everything still pending on standard input.
\<close>

definition unread :: "reader \<Rightarrow> uint8_t list" where
  "unread s = drop (buffer_pos s) (take (buffer_len s) (buffer s)) @ concat (stdin s)"

text \<open>
  The \<open>k\<close>-th little-endian group of a byte sequence, read as a number: byte \<open>4k\<close> is the
  least significant. \<open>decode_le\<close> lists the complete groups in order.
\<close>

definition le_group :: "uint8_t list \<Rightarrow> nat \<Rightarrow> uint32_t" where
  "le_group bs k =
     word_of_nat (unat (bs ! (4 * k)) + 256 * unat (bs ! (4 * k + 1))
                  + 65536 * unat (bs ! (4 * k + 2)) + 16777216 * unat (bs ! (4 * k + 3)))"

definition decode_le :: "uint8_t list \<Rightarrow> uint32_t list" where
  "decode_le bs = map (le_group bs) [0..<length bs div 4]"

text \<open>
  The state is consistent when the fill length does not exceed the array and no pending
  chunk is empty (no read error before the end of the stream).
\<close>

definition reader_ok :: "reader \<Rightarrow> bool" where
  "reader_ok s \<longleftrightarrow> buffer_len s \<le> length (buffer s) \<and> [] \<notin> set (stdin s)"

text \<open>
  The states the reader passes through: it starts in \<open>initial_reader\<close>; the loop of
  \<^verbatim>\<open>read_uint32\<close> refills when the buffer is used up and fetches a byte; a whole call of
  \<^verbatim>\<open>read_uint32\<close> that returns leaves a new state.
\<close>

inductive reachable :: "uint8_t list list \<Rightarrow> reader \<Rightarrow> bool" for cs :: "uint8_t list list" where
  start: "reachable cs (initial_reader cs)"
| refill: "reachable cs s \<Longrightarrow> buffer_len s \<le> buffer_pos s \<Longrightarrow> s' = snd (refill_buffer s)
           \<Longrightarrow> reachable cs s'"
| fetch: "reachable cs s \<Longrightarrow> next_byte s = Inr (b, s') \<Longrightarrow> reachable cs s'"
| draw: "reachable cs s \<Longrightarrow> read_uint32 s = Inr (v, s') \<Longrightarrow> reachable cs s'"

code_pred reachable .

text \<open>What the caller observes of a call: the exit, or the value returned.\<close>

definition observable :: "exit + ('a \<times> reader) \<Rightarrow> exit + 'a" where
  "observable r = (case r of Inl e \<Rightarrow> Inl e | Inr (x, s) \<Rightarrow> Inr x)"

text \<open>What a callback hands to the battery for a 32-bit draw.\<close>

fun callback_result :: "call \<Rightarrow> uint32_t \<Rightarrow> drawn" where
  "callback_result GetBits v = Bits (ucast v)"
| "callback_result GetU01 v = U01 (u01_of v)"

section \<open>The command line and the dispatch of \<open>main\<close>\<close>

text \<open>The ten \<^verbatim>\<open>printf\<close> calls of the help branch, \<^verbatim>\<open>%s\<close> being \<^verbatim>\<open>argv[0]\<close>.\<close>

definition usage :: "string \<Rightarrow> string" where
  "usage prog =
     ''Usage: '' @ prog @ '' [OPTIONS]'' @ newline
     @ newline @ ''Reads random bytes from stdin and runs TestU01 battery.'' @ newline
     @ newline @ ''Options:'' @ newline
     @ ''  -s, --small   Run SmallCrush (~10 seconds)'' @ newline
     @ ''  -m, --medium  Run Crush (~30 minutes)'' @ newline
     @ ''  -b, --big     Run BigCrush (~4 hours) [default]'' @ newline
     @ ''  -n, --name    Generator name for report'' @ newline
     @ ''  -h, --help    Show this help'' @ newline
     @ newline @ ''Example:'' @ newline
     @ ''  ./target/release/rng_test | '' @ prog @ '' --small'' @ newline"

text \<open>
  The loop of \<^verbatim>\<open>main\<close> over \<^verbatim>\<open>argv[1..argc)\<close>, with \<^verbatim>\<open>argc = length argv\<close>. The result is
  \<open>Inl\<close> of the text printed when the help branch returns from \<^verbatim>\<open>main\<close>, or \<open>Inr\<close> of
  \<^verbatim>\<open>name\<close> and \<^verbatim>\<open>test_type\<close> when the loop ends.
\<close>

function parse_args :: "string list \<Rightarrow> nat \<Rightarrow> string \<Rightarrow> int \<Rightarrow> string + (string \<times> int)" where
  "parse_args argv i name test_type =
     (if i < length argv then
        (if argv ! i = ''-s'' \<or> argv ! i = ''--small'' then
           parse_args argv (i + 1) name 0
         else if argv ! i = ''-m'' \<or> argv ! i = ''--medium'' then
           parse_args argv (i + 1) name 1
         else if argv ! i = ''-b'' \<or> argv ! i = ''--big'' then
           parse_args argv (i + 1) name 2
         else if argv ! i = ''-n'' \<or> argv ! i = ''--name'' then
           (if i + 1 < length argv then
              parse_args argv (i + 1 + 1) (argv ! (i + 1)) test_type
            else parse_args argv (i + 1) name test_type)
         else if argv ! i = ''-h'' \<or> argv ! i = ''--help'' then
           Inl (usage (argv ! 0))
         else parse_args argv (i + 1) name test_type)
      else Inr (name, test_type))"
  by pat_completeness auto
termination
  by (relation "measure (\<lambda>(argv, i, name, test_type). length argv - i)") auto

declare parse_args.simps [simp del]

text \<open>\<^verbatim>\<open>write_state\<close>: \<^verbatim>\<open>printf("\n")\<close>, appended to what has been printed.\<close>

definition write_state :: "string \<Rightarrow> string" where
  "write_state printed = printed @ newline"

text \<open>
  The three entry points \<^verbatim>\<open>bbattery_SmallCrush\<close>, \<^verbatim>\<open>bbattery_Crush\<close> and
  \<^verbatim>\<open>bbattery_BigCrush\<close> of the TestU01 library. The library is not part of the program:
  a run of a battery on the generator of a given name, started in a reader state, is a
  parameter that yields the report it printed and either the \<^verbatim>\<open>exit\<close> a callback made or
  the reader state it left.
\<close>

datatype battery = SmallCrush | Crush | BigCrush

type_synonym bbattery = "battery \<Rightarrow> string \<Rightarrow> reader \<Rightarrow> string \<times> (exit + reader)"

text \<open>A battery for examples: it makes the given calls and reports nothing.\<close>

definition calling_battery :: "call list \<Rightarrow> bbattery" where
  "calling_battery calls b gen rd =
     (case run_calls calls rd of Inl e \<Rightarrow> ([], Inl e) | Inr (ds, rd') \<Rightarrow> ([], Inr rd'))"

text \<open>
  How the process ends: \<^verbatim>\<open>main\<close> returns a status, having printed a text and left the
  reader in a state, or \<^verbatim>\<open>exit\<close> is called after some text was printed.
\<close>

datatype outcome = Return string int reader | Exited string exit

text \<open>
  \<^verbatim>\<open>create_stdin_gen\<close>: whether \<^verbatim>\<open>malloc\<close> succeeds is a parameter. Of the generator only
  the name varies (\<^verbatim>\<open>state\<close> and \<^verbatim>\<open>param\<close> are \<^verbatim>\<open>NULL\<close>, the callbacks are fixed).
\<close>

definition create_stdin_gen :: "bool \<Rightarrow> string \<Rightarrow> exit + string" where
  "create_stdin_gen malloc_ok name =
     (if \<not> malloc_ok then Inl (Exit 1 (''Error: malloc failed'' @ newline)) else Inr name)"

text \<open>\<^verbatim>\<open>printf("Running SmallCrush on '%s'...\n", name)\<close> and its two siblings.\<close>

fun running :: "battery \<Rightarrow> string \<Rightarrow> string" where
  "running SmallCrush name =
     ''Running SmallCrush on '' @ [CHR 0x27] @ name @ [CHR 0x27] @ ''...'' @ newline"
| "running Crush name =
     ''Running Crush on '' @ [CHR 0x27] @ name @ [CHR 0x27] @ ''...'' @ newline"
| "running BigCrush name =
     ''Running BigCrush on '' @ [CHR 0x27] @ name @ [CHR 0x27] @ ''...'' @ newline"

text \<open>One \<^verbatim>\<open>case\<close> of the \<^verbatim>\<open>switch\<close>, followed by \<^verbatim>\<open>delete_stdin_gen\<close> and \<^verbatim>\<open>return 0\<close>.\<close>

definition launch :: "battery \<Rightarrow> string \<Rightarrow> bbattery \<Rightarrow> reader \<Rightarrow> outcome" where
  "launch b gen run rd =
     (case run b gen rd of
        (report, Inl e) \<Rightarrow> Exited (running b gen @ report) e
      | (report, Inr rd') \<Rightarrow> Return (running b gen @ report) 0 rd')"

text \<open>\<^verbatim>\<open>switch (test_type)\<close>; it has no \<^verbatim>\<open>default\<close>, any other value runs nothing.\<close>

definition dispatch :: "int \<Rightarrow> string \<Rightarrow> bbattery \<Rightarrow> reader \<Rightarrow> outcome" where
  "dispatch test_type gen run rd =
     (if test_type = 0 then launch SmallCrush gen run rd
      else if test_type = 1 then launch Crush gen run rd
      else if test_type = 2 then launch BigCrush gen run rd
      else Return [] 0 rd)"

definition main :: "string list \<Rightarrow> bool \<Rightarrow> bbattery \<Rightarrow> reader \<Rightarrow> outcome" where
  "main argv malloc_ok run rd =
     (case parse_args argv 1 ''Rust RNG'' 2 of
        Inl printed \<Rightarrow> Return printed 0 rd
      | Inr (name, test_type) \<Rightarrow>
          (case create_stdin_gen malloc_ok name of
             Inl e \<Rightarrow> Exited [] e
           | Inr gen \<Rightarrow> dispatch test_type gen run rd))"

text \<open>
  The arguments the scan reads as flags: all of them except an argument that directly
  follows a \<^verbatim>\<open>-n\<close> or \<^verbatim>\<open>--name\<close> read as a flag, which is taken as the name, and that
  \<^verbatim>\<open>-n\<close> or \<^verbatim>\<open>--name\<close> itself.
\<close>

fun flag_args :: "string list \<Rightarrow> string list" where
  "flag_args [] = []"
| "flag_args [a] = (if a = ''-n'' \<or> a = ''--name'' then [] else [a])"
| "flag_args (a # v # rest) =
     (if a = ''-n'' \<or> a = ''--name'' then flag_args rest else a # flag_args (v # rest))"

definition is_battery_flag :: "string \<Rightarrow> bool" where
  "is_battery_flag a \<longleftrightarrow> a \<in> {''-s'', ''--small'', ''-m'', ''--medium'', ''-b'', ''--big''}"

definition battery_code :: "string \<Rightarrow> int" where
  "battery_code a =
     (if a = ''-s'' \<or> a = ''--small'' then 0 else if a = ''-m'' \<or> a = ''--medium'' then 1 else 2)"

text \<open>The selection made by the last battery flag of a list, \<open>t\<close> if it has none.\<close>

definition last_battery :: "int \<Rightarrow> string list \<Rightarrow> int" where
  "last_battery t as =
     (case filter is_battery_flag as of [] \<Rightarrow> t | f # fs \<Rightarrow> battery_code (last (f # fs)))"

text \<open>
  The loop of \<open>parse_args\<close> once more, as a recursion over the arguments not yet read
  (\<open>prog\<close> is \<^verbatim>\<open>argv[0]\<close>); \<open>parse_args_scan\<close> proves the two equal.
\<close>

function scan :: "string \<Rightarrow> string list \<Rightarrow> string \<Rightarrow> int \<Rightarrow> string + (string \<times> int)" where
  "scan prog [] name test_type = Inr (name, test_type)"
| "scan prog (a # as) name test_type =
     (if a = ''-s'' \<or> a = ''--small'' then scan prog as name 0
      else if a = ''-m'' \<or> a = ''--medium'' then scan prog as name 1
      else if a = ''-b'' \<or> a = ''--big'' then scan prog as name 2
      else if a = ''-n'' \<or> a = ''--name'' then
        (case as of [] \<Rightarrow> Inr (name, test_type) | v # rest \<Rightarrow> scan prog rest v test_type)
      else if a = ''-h'' \<or> a = ''--help'' then Inl (usage prog)
      else scan prog as name test_type)"
  by pat_completeness auto
termination
  by (relation "measure (\<lambda>(prog, as, name, test_type). length as)") simp_all

declare scan.simps [simp del]

text \<open>
  Whether the last argument of a list is a \<^verbatim>\<open>-n\<close> or \<^verbatim>\<open>--name\<close> in the place of a flag:
  it is not itself the value that a \<^verbatim>\<open>-n\<close> or \<^verbatim>\<open>--name\<close> before it takes.
\<close>

fun pending_name :: "string list \<Rightarrow> bool" where
  "pending_name [] = False"
| "pending_name [a] = (a = ''-n'' \<or> a = ''--name'')"
| "pending_name (a # v # rest) =
     (if a = ''-n'' \<or> a = ''--name'' then pending_name rest else pending_name (v # rest))"

section \<open>Fetching one byte\<close>

lemma fread_concat:
  "fread n cs = (got, rest) \<Longrightarrow> got @ concat rest = concat cs"
  by (cases cs) (auto split: if_splits)

lemma fread_rest_ok:
  "fread n cs = (got, rest) \<Longrightarrow> [] \<notin> set cs \<Longrightarrow> [] \<notin> set rest"
  by (cases cs) (auto split: if_splits)

lemma fread_length:
  "fread n cs = (got, rest) \<Longrightarrow> length got \<le> n"
  by (cases cs) (auto split: if_splits)

lemma next_byte_Cons:
  assumes ok: "reader_ok s" and u: "unread s = b # bs"
  shows "\<exists>s'. next_byte s = Inr (b, s') \<and> unread s' = bs \<and> reader_ok s'"
proof (cases "buffer_len s \<le> buffer_pos s")
  case False
  then have lt: "buffer_pos s < buffer_len s" by simp
  from ok have le: "buffer_len s \<le> length (buffer s)" by (simp add: reader_ok_def)
  from lt le have "drop (buffer_pos s) (take (buffer_len s) (buffer s))
      = buffer s ! buffer_pos s # drop (Suc (buffer_pos s)) (take (buffer_len s) (buffer s))"
    by (simp add: Cons_nth_drop_Suc [symmetric])
  with u have "b = buffer s ! buffer_pos s"
    and "bs = drop (Suc (buffer_pos s)) (take (buffer_len s) (buffer s)) @ concat (stdin s)"
    by (simp_all add: unread_def)
  with False ok show ?thesis
    by (simp add: next_byte_def unread_def reader_ok_def)
next
  case True
  with u have cu: "concat (stdin s) = b # bs" by (simp add: unread_def)
  obtain got rest where fr: "fread BUFFER_SIZE (stdin s) = (got, rest)"
    by (cases "fread BUFFER_SIZE (stdin s)")
  from cu obtain c cs where st: "stdin s = c # cs" by (cases "stdin s") auto
  from ok st have "c \<noteq> []" by (auto simp: reader_ok_def)
  with fr st have ne: "got \<noteq> []" by (auto simp: BUFFER_SIZE_def split: if_splits)
  from fread_concat [OF fr] cu have gc: "got @ concat rest = b # bs" by simp
  with ne obtain g where got: "got = b # g" and bs: "bs = g @ concat rest"
    by (cases got) auto
  from ok have rok: "[] \<notin> set rest"
    using fread_rest_ok [OF fr] by (simp add: reader_ok_def)
  show ?thesis
    using True fr got bs rok
    by (simp add: next_byte_def refill_buffer_def unread_def reader_ok_def)
qed

lemma next_byte_Nil:
  assumes ok: "reader_ok s" and u: "unread s = []"
  shows "next_byte s = Inl stdin_exhausted"
proof -
  from ok have le: "buffer_len s \<le> length (buffer s)" by (simp add: reader_ok_def)
  from u have d: "drop (buffer_pos s) (take (buffer_len s) (buffer s)) = []"
    and c: "concat (stdin s) = []" by (simp_all add: unread_def)
  from d le have T: "buffer_len s \<le> buffer_pos s" by simp
  from c ok have "stdin s = []" by (cases "stdin s") (auto simp: reader_ok_def)
  with T show ?thesis by (simp add: next_byte_def refill_buffer_def)
qed

section \<open>Assembling one value\<close>

lemma or_byte1:
  fixes b0 b1 :: uint8_t
  shows "(ucast b0 :: uint32_t) OR push_bit 8 (ucast b1) = ucast b0 + push_bit 8 (ucast b1)"
  by (rule disjunctive_add [symmetric]) (auto simp: bit_simps dest: bit_imp_le_length)

lemma or_byte2:
  fixes b0 b1 b2 :: uint8_t
  shows "((ucast b0 :: uint32_t) OR push_bit 8 (ucast b1)) OR push_bit 16 (ucast b2)
       = (ucast b0 OR push_bit 8 (ucast b1)) + push_bit 16 (ucast b2)"
  by (rule disjunctive_add [symmetric]) (auto simp: bit_simps dest: bit_imp_le_length)

lemma or_byte3:
  fixes b0 b1 b2 b3 :: uint8_t
  shows "(((ucast b0 :: uint32_t) OR push_bit 8 (ucast b1)) OR push_bit 16 (ucast b2))
         OR push_bit 24 (ucast b3)
       = ((ucast b0 OR push_bit 8 (ucast b1)) OR push_bit 16 (ucast b2)) + push_bit 24 (ucast b3)"
  by (rule disjunctive_add [symmetric]) (auto simp: bit_simps dest: bit_imp_le_length)

lemma le_assemble:
  fixes b0 b1 b2 b3 :: uint8_t
  shows "((((0 :: uint32_t) OR push_bit (0 * 8) (ucast b0)) OR push_bit ((0 + 1) * 8) (ucast b1))
      OR push_bit ((0 + 1 + 1) * 8) (ucast b2)) OR push_bit ((0 + 1 + 1 + 1) * 8) (ucast b3)
    = word_of_nat (unat b0 + 256 * unat b1 + 65536 * unat b2 + 16777216 * unat b3)"
proof -
  have "((((0 :: uint32_t) OR push_bit (0 * 8) (ucast b0)) OR push_bit ((0 + 1) * 8) (ucast b1))
      OR push_bit ((0 + 1 + 1) * 8) (ucast b2)) OR push_bit ((0 + 1 + 1 + 1) * 8) (ucast b3)
    = ((ucast b0 OR push_bit 8 (ucast b1)) OR push_bit 16 (ucast b2)) OR push_bit 24 (ucast b3)"
    by simp
  also have "\<dots> = ucast b0 + push_bit 8 (ucast b1) + push_bit 16 (ucast b2) + push_bit 24 (ucast b3)"
    by (subst or_byte3, subst or_byte2, subst or_byte1) (rule refl)
  also have "\<dots> = word_of_nat (unat b0 + 256 * unat b1 + 65536 * unat b2 + 16777216 * unat b3)"
    by (simp add: push_bit_eq_mult)
  finally show ?thesis .
qed

lemma unat8_bound: "unat (b :: uint8_t) < 256"
  using unsigned_less [of b, where 'a = nat] by simp

lemma unat_le_sum:
  fixes b0 b1 b2 b3 :: uint8_t
  shows "unat (word_of_nat (unat b0 + 256 * unat b1 + 65536 * unat b2 + 16777216 * unat b3) :: uint32_t)
     = unat b0 + 256 * unat b1 + 65536 * unat b2 + 16777216 * unat b3"
proof -
  have "unat b0 + 256 * unat b1 + 65536 * unat b2 + 16777216 * unat b3 < 2 ^ LENGTH(32)"
    using unat8_bound [of b0] unat8_bound [of b1] unat8_bound [of b2] unat8_bound [of b3] by simp
  then show ?thesis by (simp only: unat_of_nat mod_less)
qed


lemma loop_step:
  "i < 4 \<Longrightarrow> next_byte s = Inr (b, s') \<Longrightarrow>
   read_uint32_loop i v s = read_uint32_loop (i + 1) (v OR push_bit (i * 8) (ucast b)) s'"
  by (subst read_uint32_loop.simps) simp

lemma loop_fail:
  "i < 4 \<Longrightarrow> next_byte s = Inl e \<Longrightarrow> read_uint32_loop i v s = Inl e"
  by (subst read_uint32_loop.simps) simp

lemma loop_done:
  "\<not> i < 4 \<Longrightarrow> read_uint32_loop i v s = Inr (v, s)"
  by (subst read_uint32_loop.simps) simp

lemma read_uint32_ok:
  assumes ok: "reader_ok s" and u: "unread s = b0 # b1 # b2 # b3 # rest"
  shows "\<exists>s'. read_uint32 s
            = Inr (word_of_nat (unat b0 + 256 * unat b1 + 65536 * unat b2 + 16777216 * unat b3), s')
          \<and> unread s' = rest \<and> reader_ok s'"
proof -
  from next_byte_Cons [OF ok u] obtain s1 where
    n1: "next_byte s = Inr (b0, s1)" and u1: "unread s1 = b1 # b2 # b3 # rest" and ok1: "reader_ok s1"
    by blast
  from next_byte_Cons [OF ok1 u1] obtain s2 where
    n2: "next_byte s1 = Inr (b1, s2)" and u2: "unread s2 = b2 # b3 # rest" and ok2: "reader_ok s2"
    by blast
  from next_byte_Cons [OF ok2 u2] obtain s3 where
    n3: "next_byte s2 = Inr (b2, s3)" and u3: "unread s3 = b3 # rest" and ok3: "reader_ok s3"
    by blast
  from next_byte_Cons [OF ok3 u3] obtain s4 where
    n4: "next_byte s3 = Inr (b3, s4)" and u4: "unread s4 = rest" and ok4: "reader_ok s4"
    by blast
  have "read_uint32 s = read_uint32_loop 0 0 s"
    by (simp add: read_uint32_def)
  also have "\<dots> = read_uint32_loop (0 + 1) (0 OR push_bit (0 * 8) (ucast b0)) s1"
    by (rule loop_step) (simp_all add: n1)
  also have "\<dots> = read_uint32_loop (0 + 1 + 1)
      ((0 OR push_bit (0 * 8) (ucast b0)) OR push_bit ((0 + 1) * 8) (ucast b1)) s2"
    by (rule loop_step) (simp_all add: n2)
  also have "\<dots> = read_uint32_loop (0 + 1 + 1 + 1)
      (((0 OR push_bit (0 * 8) (ucast b0)) OR push_bit ((0 + 1) * 8) (ucast b1))
        OR push_bit ((0 + 1 + 1) * 8) (ucast b2)) s3"
    by (rule loop_step) (simp_all add: n3)
  also have "\<dots> = read_uint32_loop (0 + 1 + 1 + 1 + 1)
      ((((0 OR push_bit (0 * 8) (ucast b0)) OR push_bit ((0 + 1) * 8) (ucast b1))
        OR push_bit ((0 + 1 + 1) * 8) (ucast b2)) OR push_bit ((0 + 1 + 1 + 1) * 8) (ucast b3)) s4"
    by (rule loop_step) (simp_all add: n4)
  also have "\<dots> = Inr ((((0 OR push_bit (0 * 8) (ucast b0)) OR push_bit ((0 + 1) * 8) (ucast b1))
        OR push_bit ((0 + 1 + 1) * 8) (ucast b2)) OR push_bit ((0 + 1 + 1 + 1) * 8) (ucast b3), s4)"
    by (rule loop_done) simp
  finally have "read_uint32 s
      = Inr (word_of_nat (unat b0 + 256 * unat b1 + 65536 * unat b2 + 16777216 * unat b3), s4)"
    by (simp only: le_assemble)
  with u4 ok4 show ?thesis by blast
qed

lemma loop_short:
  "reader_ok s \<Longrightarrow> length (unread s) < 4 - i \<Longrightarrow> read_uint32_loop i v s = Inl stdin_exhausted"
proof (induction i v s rule: read_uint32_loop.induct)
  case (1 i v s)
  then have i4: "i < 4" by simp
  show ?case
  proof (cases "unread s")
    case Nil
    with "1.prems" i4 show ?thesis by (simp add: loop_fail next_byte_Nil)
  next
    case (Cons b bs)
    from next_byte_Cons [OF "1.prems"(1) Cons] obtain s' where
      n: "next_byte s = Inr (b, s')" and u: "unread s' = bs" and ok: "reader_ok s'"
      by blast
    from "1.prems"(2) Cons u have "length (unread s') < 4 - (i + 1)" by simp
    with "1.IH" [OF i4 n refl ok]
    have "read_uint32_loop (i + 1) (v OR push_bit (i * 8) (ucast b)) s' = Inl stdin_exhausted"
      by simp
    with loop_step [OF i4 n] show ?thesis by simp
  qed
qed

lemma read_uint32_short:
  "reader_ok s \<Longrightarrow> length (unread s) < 4 \<Longrightarrow> read_uint32 s = Inl stdin_exhausted"
  by (simp add: read_uint32_def loop_short)

section \<open>Drawing many values\<close>

lemma le_group_0:
  "le_group (b0 # b1 # b2 # b3 # rest) 0
     = word_of_nat (unat b0 + 256 * unat b1 + 65536 * unat b2 + 16777216 * unat b3)"
  by (simp add: le_group_def)

lemma le_group_Suc:
  "le_group (b0 # b1 # b2 # b3 # rest) (Suc k) = le_group rest k"
  by (simp add: le_group_def add.commute)

lemma decode_le_Cons4:
  "decode_le (b0 # b1 # b2 # b3 # rest)
     = word_of_nat (unat b0 + 256 * unat b1 + 65536 * unat b2 + 16777216 * unat b3) # decode_le rest"
proof -
  have "[0..<Suc (length rest div 4)] = 0 # map Suc [0..<length rest div 4]"
    by (simp add: upt_conv_Cons map_Suc_upt del: upt_Suc)
  then show ?thesis
    by (simp add: decode_le_def le_group_0 le_group_Suc del: upt_Suc)
qed

lemma decode_le_short: "length bs < 4 \<Longrightarrow> decode_le bs = []"
  by (simp add: decode_le_def)

lemma four_bytes:
  assumes "4 \<le> length (xs :: 'a list)"
  obtains b0 b1 b2 b3 rest where "xs = b0 # b1 # b2 # b3 # rest"
proof -
  from assms obtain b0 x1 where 1: "xs = b0 # x1" by (cases xs) auto
  with assms obtain b1 x2 where 2: "x1 = b1 # x2" by (cases x1) auto
  with 1 assms obtain b2 x3 where 3: "x2 = b2 # x3" by (cases x2) auto
  with 1 2 assms obtain b3 x4 where 4: "x3 = b3 # x4" by (cases x3) auto
  from 1 2 3 4 that show ?thesis by blast
qed

lemma read_uint32_times_ok:
  "reader_ok s \<Longrightarrow> 4 * n \<le> length (unread s) \<Longrightarrow>
   \<exists>s'. read_uint32_times n s = Inr (decode_le (take (4 * n) (unread s)), s')
        \<and> unread s' = drop (4 * n) (unread s) \<and> reader_ok s'"
proof (induction n arbitrary: s)
  case 0
  then show ?case by (simp add: decode_le_short)
next
  case (Suc n)
  from Suc.prems(2) have "4 \<le> length (unread s)" by simp
  then obtain b0 b1 b2 b3 rest where u: "unread s = b0 # b1 # b2 # b3 # rest"
    by (rule four_bytes)
  from read_uint32_ok [OF Suc.prems(1) u] obtain s1 where
    r: "read_uint32 s
          = Inr (word_of_nat (unat b0 + 256 * unat b1 + 65536 * unat b2 + 16777216 * unat b3), s1)"
    and u1: "unread s1 = rest" and ok1: "reader_ok s1"
    by blast
  from Suc.prems(2) u u1 have "4 * n \<le> length (unread s1)" by simp
  from Suc.IH [OF ok1 this] obtain s' where
    t: "read_uint32_times n s1 = Inr (decode_le (take (4 * n) (unread s1)), s')"
    and u': "unread s' = drop (4 * n) (unread s1)" and ok': "reader_ok s'"
    by blast
  have four: "4 * Suc n = Suc (Suc (Suc (Suc (4 * n))))"
    by simp
  have tk: "take (4 * Suc n) (unread s) = b0 # b1 # b2 # b3 # take (4 * n) rest"
    by (simp only: four u take_Suc_Cons)
  have dr: "drop (4 * Suc n) (unread s) = drop (4 * n) rest"
    by (simp only: four u drop_Suc_Cons)
  show ?case
    using r t u' ok' u1 by (simp add: tk dr decode_le_Cons4 del: mult_Suc_right)
qed

lemma read_uint32_times_short:
  "reader_ok s \<Longrightarrow> length (unread s) < 4 * n \<Longrightarrow> read_uint32_times n s = Inl stdin_exhausted"
proof (induction n arbitrary: s)
  case 0
  then show ?case by simp
next
  case (Suc n)
  show ?case
  proof (cases "length (unread s) < 4")
    case True
    with Suc.prems(1) show ?thesis by (simp add: read_uint32_short)
  next
    case False
    then have "4 \<le> length (unread s)" by simp
    then obtain b0 b1 b2 b3 rest where u: "unread s = b0 # b1 # b2 # b3 # rest"
      by (rule four_bytes)
    from read_uint32_ok [OF Suc.prems(1) u] obtain s1 where
      r: "read_uint32 s
            = Inr (word_of_nat (unat b0 + 256 * unat b1 + 65536 * unat b2 + 16777216 * unat b3), s1)"
      and u1: "unread s1 = rest" and ok1: "reader_ok s1"
      by blast
    from Suc.prems(2) u u1 have "length (unread s1) < 4 * n" by simp
    from Suc.IH [OF ok1 this] r show ?thesis by simp
  qed
qed

lemma reader_ok_initial: "[] \<notin> set cs \<Longrightarrow> reader_ok (initial_reader cs)"
  by (simp add: reader_ok_def initial_reader_def)

lemma unread_initial: "unread (initial_reader cs) = concat cs"
  by (simp add: unread_def initial_reader_def)

section \<open>The stream of decoded values\<close>

lemma decode_le_take:
  "decode_le (take (4 * (length bs div 4)) bs) = decode_le bs"
proof -
  have len: "length (take (4 * (length bs div 4)) bs) = 4 * (length bs div 4)"
    by simp
  have "map (le_group (take (4 * (length bs div 4)) bs)) [0..<length bs div 4]
      = map (le_group bs) [0..<length bs div 4]"
    by (rule map_cong [OF refl]) (simp add: le_group_def)
  then show ?thesis
    by (simp only: decode_le_def len) simp
qed

text \<open>
  Claim C1. When the input has a multiple of 4 bytes, however it is cut into non-empty
  chunks, \<open>length / 4\<close> calls of \<^verbatim>\<open>read_uint32\<close> from the initial state all return, and
  they return the little-endian groups of the input in order (\<open>decode_le\<close>: the \<open>k\<close>-th
  value is group \<open>k\<close>, nothing repeated, skipped or added); no byte is left unread.
\<close>

theorem read_uint32_reproduces_groups:
  assumes "[] \<notin> set cs" and "length (concat cs) mod 4 = 0"
  shows "\<exists>s'. read_uint32_times (length (concat cs) div 4) (initial_reader cs)
               = Inr (decode_le (concat cs), s')
             \<and> unread s' = []"
proof -
  let ?bs = "concat cs"
  from assms(2) have n: "4 * (length ?bs div 4) = length ?bs" by presburger
  have ok: "reader_ok (initial_reader cs)"
    using assms(1) by (rule reader_ok_initial)
  have "4 * (length ?bs div 4) \<le> length (unread (initial_reader cs))"
    by (simp add: unread_initial)
  from read_uint32_times_ok [OF ok this] obtain s' where
    "read_uint32_times (length ?bs div 4) (initial_reader cs) = Inr (decode_le ?bs, s')"
    and "unread s' = []"
    by (simp only: unread_initial n) auto
  then show ?thesis by blast
qed

theorem read_uint32_reproduces_groups_witness:
  "[] \<notin> set [[1, 0, 0], [0, 0xFF], [0xFF, 0xFF, 0xFF :: uint8_t]]
   \<and> length (concat [[1, 0, 0], [0, 0xFF], [0xFF, 0xFF, 0xFF :: uint8_t]]) mod 4 = 0
   \<and> (\<exists>s'. read_uint32_times 2 (initial_reader [[1, 0, 0], [0, 0xFF], [0xFF, 0xFF, 0xFF]])
              = Inr ([1, 4294967295], s')
            \<and> unread s' = [])"
  using read_uint32_reproduces_groups [of "[[1, 0, 0], [0, 0xFF], [0xFF, 0xFF, 0xFF]]"]
  by (simp add: decode_le_def le_group_def upt_conv_Cons)


text \<open>
  Claim C2. In a consistent state with at least four unread bytes, \<^verbatim>\<open>read_uint32\<close>
  returns the number whose least significant byte is the first unread byte, the next three
  following in rising significance, and consumes exactly these four bytes. The bytes
  \<open>01 00 00 00\<close> give 1 and the bytes \<open>FF FF FF FF\<close> give 4294967295.
\<close>

theorem read_uint32_little_endian:
  "(\<forall>s b0 b1 b2 b3 rest.
      reader_ok s \<and> unread s = b0 # b1 # b2 # b3 # rest \<longrightarrow>
      (\<exists>v s'. read_uint32 s = Inr (v, s')
             \<and> unat v = unat b0 + 256 * unat b1 + 65536 * unat b2 + 16777216 * unat b3
             \<and> unread s' = rest))
   \<and> (\<exists>s'. read_uint32 (initial_reader [[0x01, 0x00, 0x00, 0x00]]) = Inr (1, s'))
   \<and> (\<exists>s'. read_uint32 (initial_reader [[0xFF, 0xFF, 0xFF, 0xFF]]) = Inr (4294967295, s'))"
proof (intro conjI allI impI)
  fix s :: reader and b0 b1 b2 b3 rest
  assume a: "reader_ok s \<and> unread s = b0 # b1 # b2 # b3 # rest"
  then have ok: "reader_ok s" and u: "unread s = b0 # b1 # b2 # b3 # rest" by simp_all
  from read_uint32_ok [OF ok u] obtain s' where
    "read_uint32 s
       = Inr (word_of_nat (unat b0 + 256 * unat b1 + 65536 * unat b2 + 16777216 * unat b3), s')"
    and "unread s' = rest"
    by blast
  then show "\<exists>v s'. read_uint32 s = Inr (v, s')
             \<and> unat v = unat b0 + 256 * unat b1 + 65536 * unat b2 + 16777216 * unat b3
             \<and> unread s' = rest"
    using unat_le_sum [of b0 b1 b2 b3] by blast
next
  have ok: "reader_ok (initial_reader [[0x01, 0x00, 0x00, 0x00]])"
    by (rule reader_ok_initial) simp
  have u: "unread (initial_reader [[0x01, 0x00, 0x00, 0x00]]) = 0x01 # 0x00 # 0x00 # 0x00 # []"
    by (simp add: unread_initial)
  from read_uint32_ok [OF ok u]
  show "\<exists>s'. read_uint32 (initial_reader [[0x01, 0x00, 0x00, 0x00]]) = Inr (1, s')"
    by auto
next
  have ok: "reader_ok (initial_reader [[0xFF, 0xFF, 0xFF, 0xFF]])"
    by (rule reader_ok_initial) simp
  have u: "unread (initial_reader [[0xFF, 0xFF, 0xFF, 0xFF]]) = 0xFF # 0xFF # 0xFF # 0xFF # []"
    by (simp add: unread_initial)
  from read_uint32_ok [OF ok u]
  show "\<exists>s'. read_uint32 (initial_reader [[0xFF, 0xFF, 0xFF, 0xFF]]) = Inr (4294967295, s')"
    by auto
qed

theorem read_uint32_little_endian_witness:
  "reader_ok (initial_reader [[0x78, 0x56], [0x34, 0x12, 0x09]])
   \<and> unread (initial_reader [[0x78, 0x56], [0x34, 0x12, 0x09]]) = [0x78, 0x56, 0x34, 0x12, 0x09]
   \<and> (\<exists>v s'. read_uint32 (initial_reader [[0x78, 0x56], [0x34, 0x12, 0x09]]) = Inr (v, s')
            \<and> unat v = 0x12345678 \<and> unread s' = [0x09])"
proof -
  have ok: "reader_ok (initial_reader [[0x78, 0x56], [0x34, 0x12, 0x09]])"
    by (simp add: reader_ok_def initial_reader_def)
  have u: "unread (initial_reader [[0x78, 0x56], [0x34, 0x12, 0x09]])
             = 0x78 # 0x56 # 0x34 # 0x12 # [0x09]"
    by (simp add: unread_def initial_reader_def)
  from read_uint32_little_endian ok u
  have "\<exists>v s'. read_uint32 (initial_reader [[0x78, 0x56], [0x34, 0x12, 0x09]]) = Inr (v, s')
            \<and> unat v = unat (0x78 :: uint8_t) + 256 * unat (0x56 :: uint8_t)
                 + 65536 * unat (0x34 :: uint8_t) + 16777216 * unat (0x12 :: uint8_t)
            \<and> unread s' = [0x09]"
    by blast
  with ok u show ?thesis by simp
qed

text \<open>
  Claim C3. When the number of input bytes is not a multiple of 4, the first
  \<open>length div 4\<close> calls return the complete groups, and the next call ends the process by
  \<^verbatim>\<open>exit(1)\<close> with the message \<^verbatim>\<open>Error: stdin exhausted\<close> on standard error: the result is
  the exit, not a value.
\<close>

theorem truncated_input_exhausts:
  assumes "[] \<notin> set cs" and "length (concat cs) mod 4 \<noteq> 0"
  shows "\<exists>s'. read_uint32_times (length (concat cs) div 4) (initial_reader cs)
               = Inr (decode_le (concat cs), s')
             \<and> read_uint32 s' = Inl (Exit 1 (''Error: stdin exhausted'' @ [CHR 0x0A]))"
proof -
  let ?bs = "concat cs" and ?n = "length (concat cs) div 4"
  have ok: "reader_ok (initial_reader cs)"
    using assms(1) by (rule reader_ok_initial)
  have "4 * ?n \<le> length (unread (initial_reader cs))"
    by (simp add: unread_initial)
  from read_uint32_times_ok [OF ok this] obtain s' where
    t: "read_uint32_times ?n (initial_reader cs) = Inr (decode_le (take (4 * ?n) ?bs), s')"
    and u: "unread s' = drop (4 * ?n) ?bs" and ok': "reader_ok s'"
    by (simp only: unread_initial) blast
  have "length (unread s') = length ?bs mod 4"
    by (simp add: u) presburger
  then have "length (unread s') < 4" by simp
  with ok' have "read_uint32 s' = Inl stdin_exhausted"
    by (rule read_uint32_short)
  with t show ?thesis
    by (simp add: decode_le_take stdin_exhausted_def newline_def)
qed

theorem truncated_input_exhausts_witness:
  "[] \<notin> set [[0x01, 0x00, 0x00, 0x00, 0xAA, 0xBB :: uint8_t]]
   \<and> length (concat [[0x01, 0x00, 0x00, 0x00, 0xAA, 0xBB :: uint8_t]]) mod 4 \<noteq> 0
   \<and> (\<exists>s'. read_uint32_times 1 (initial_reader [[0x01, 0x00, 0x00, 0x00, 0xAA, 0xBB]])
              = Inr ([1], s')
            \<and> read_uint32 s' = Inl (Exit 1 (''Error: stdin exhausted'' @ [CHR 0x0A])))"
  using truncated_input_exhausts [of "[[0x01, 0x00, 0x00, 0x00, 0xAA, 0xBB]]"]
  by (simp add: decode_le_def le_group_def)

section \<open>Chunks of the input\<close>

lemma observable_read_uint32_times:
  assumes ok: "reader_ok s"
  shows "observable (read_uint32_times n s)
     = (if 4 * n \<le> length (unread s) then Inr (decode_le (take (4 * n) (unread s)))
        else Inl stdin_exhausted)"
proof (cases "4 * n \<le> length (unread s)")
  case True
  from read_uint32_times_ok [OF ok True] show ?thesis
    using True by (auto simp: observable_def)
next
  case False
  then have "length (unread s) < 4 * n" by simp
  from read_uint32_times_short [OF ok this] show ?thesis
    using False by (simp add: observable_def)
qed

text \<open>
  Claim C7. The values that \<open>n\<close> calls of \<^verbatim>\<open>read_uint32\<close> return, and whether one of them
  exits, depend on the bytes of the input only, not on the chunks in which they arrive: two
  inputs with the same bytes, each cut into non-empty chunks in its own way, are observed
  alike. One chunk of \<open>4096 + 4\<close> bytes and the same bytes one at a time are an instance.
\<close>

theorem chunking_unobservable:
  assumes "concat cs1 = concat cs2" and "[] \<notin> set cs1" and "[] \<notin> set cs2"
  shows "observable (read_uint32_times n (initial_reader cs1))
       = observable (read_uint32_times n (initial_reader cs2))"
  using assms
  by (simp add: observable_read_uint32_times reader_ok_initial unread_initial)

theorem chunking_unobservable_witness:
  "(let bs = concat (replicate 1025 [0x78, 0x56, 0x34, 0x12 :: uint8_t])
    in length bs = 4096 + 4
     \<and> concat [bs] = concat (map (\<lambda>b. [b]) bs)
     \<and> [] \<notin> set [bs] \<and> [] \<notin> set (map (\<lambda>b. [b]) bs)
     \<and> observable (read_uint32_times 1025 (initial_reader [bs]))
       = observable (read_uint32_times 1025 (initial_reader (map (\<lambda>b. [b]) bs))))"
proof -
  let ?bs = "concat (replicate 1025 [0x78, 0x56, 0x34, 0x12 :: uint8_t])"
  have len: "length ?bs = 4096 + 4"
    by (simp add: length_concat sum_list_replicate)
  then have ne: "?bs \<noteq> []" by auto
  have c: "concat [?bs] = concat (map (\<lambda>b. [b]) ?bs)"
    by (simp add: concat_map_singleton)
  have n1: "[] \<notin> set [?bs]" using ne by simp
  have n2: "[] \<notin> set (map (\<lambda>b. [b]) ?bs)" by auto
  from chunking_unobservable [OF c n1 n2, of 1025] len c n1 n2
  show ?thesis unfolding Let_def by blast
qed

section \<open>The two callbacks\<close>

lemma run_calls_ok:
  "reader_ok s \<Longrightarrow> 4 * length calls \<le> length (unread s) \<Longrightarrow>
   \<exists>s'. run_calls calls s = Inr (map2 callback_result calls (decode_le (unread s)), s')
        \<and> unread s' = drop (4 * length calls) (unread s) \<and> reader_ok s'"
proof (induction calls arbitrary: s)
  case Nil
  then show ?case by simp
next
  case (Cons c calls)
  from Cons.prems(2) have "4 \<le> length (unread s)" by simp
  then obtain b0 b1 b2 b3 rest where u: "unread s = b0 # b1 # b2 # b3 # rest"
    by (rule four_bytes)
  define v :: uint32_t
    where "v = word_of_nat (unat b0 + 256 * unat b1 + 65536 * unat b2 + 16777216 * unat b3)"
  from read_uint32_ok [OF Cons.prems(1) u] obtain s1 where
    r: "read_uint32 s = Inr (v, s1)" and u1: "unread s1 = rest" and ok1: "reader_ok s1"
    unfolding v_def by blast
  from Cons.prems(2) u u1 have "4 * length calls \<le> length (unread s1)" by simp
  from Cons.IH [OF ok1 this] obtain s' where
    t: "run_calls calls s1 = Inr (map2 callback_result calls (decode_le rest), s')"
    and u': "unread s' = drop (4 * length calls) rest" and ok': "reader_ok s'"
    unfolding u1 by blast
  have d: "decode_le (unread s) = v # decode_le rest"
    by (simp only: u decode_le_Cons4 v_def)
  have four: "4 * length (c # calls) = Suc (Suc (Suc (Suc (4 * length calls))))"
    by simp
  have dr: "drop (4 * length (c # calls)) (unread s) = drop (4 * length calls) rest"
    by (simp only: four u drop_Suc_Cons)
  have "run_calls (c # calls) s
      = Inr (callback_result c v # map2 callback_result calls (decode_le rest), s')"
    using r t by (cases c) (simp_all add: stdin_bits_def stdin_u01_def)
  with u' ok' show ?case
    by (simp only: d dr) simp
qed

text \<open>
  Claim C4. Both callbacks draw through \<^verbatim>\<open>read_uint32\<close> from the one reader: \<open>k\<close> calls
  of \<^verbatim>\<open>stdin_bits\<close> and \<^verbatim>\<open>stdin_u01\<close> in any order, with at least \<open>4k\<close> bytes unread, all
  return; call number \<open>j\<close> returns group \<open>j\<close> of the unread input, as bits or as a
  fraction, so no two calls see the same four bytes; and afterwards exactly the first
  \<open>4k\<close> bytes are consumed.
\<close>

theorem callbacks_share_one_stream:
  assumes "reader_ok s" and "4 * length calls \<le> length (unread s)"
  shows "\<exists>s'. run_calls calls s = Inr (map2 callback_result calls (decode_le (unread s)), s')
             \<and> unread s' = drop (4 * length calls) (unread s)"
  using run_calls_ok [OF assms] by blast

theorem callbacks_share_one_stream_witness:
  "reader_ok (initial_reader [[0x01, 0x00, 0x00, 0x00, 0x00, 0x00], [0x00, 0x80, 0x09]])
   \<and> 4 * length [GetBits, GetU01]
       \<le> length (unread (initial_reader [[0x01, 0x00, 0x00, 0x00, 0x00, 0x00], [0x00, 0x80, 0x09]]))
   \<and> (\<exists>s'. run_calls [GetBits, GetU01]
                (initial_reader [[0x01, 0x00, 0x00, 0x00, 0x00, 0x00], [0x00, 0x80, 0x09]])
              = Inr ([Bits 1, U01 (1 / 2)], s')
            \<and> unread s' = [0x09])"
proof -
  let ?s = "initial_reader [[0x01, 0x00, 0x00, 0x00, 0x00, 0x00], [0x00, 0x80, 0x09]]"
  have ok: "reader_ok ?s"
    by (simp add: reader_ok_def initial_reader_def)
  have u: "unread ?s = [0x01, 0x00, 0x00, 0x00, 0x00, 0x00, 0x00, 0x80, 0x09]"
    by (simp add: unread_def initial_reader_def)
  have k: "4 * length [GetBits, GetU01] \<le> length (unread ?s)"
    by (simp add: u)
  have d: "decode_le [0x01, 0x00, 0x00, 0x00, 0x00, 0x00, 0x00, 0x80, 0x09] = [1, 0x80000000]"
    by (simp add: decode_le_def le_group_def upt_conv_Cons)
  from callbacks_share_one_stream [OF ok k] ok k show ?thesis
    by (simp add: d u u01_of_def)
qed

lemma u01_quotient: "u01_of v = real (unat v) / 2 ^ 32"
  by (simp add: u01_of_def)

text \<open>
  The quotient is a finite binary64 number: a significand below \<open>2^53\<close> times a power of
  two within the exponent range. The conversion of the draw to \<^verbatim>\<open>double\<close> and the division
  by \<open>4294967296.0\<close> therefore round nothing.
\<close>

lemma u01_is_binary64:
  "\<exists>(m :: nat) (e :: int). m < 2 ^ 53 \<and> - 1074 \<le> e \<and> e \<le> 971
      \<and> u01_of v = real m * 2 powr real_of_int e"
proof -
  have "unat v < 2 ^ 32"
    using unsigned_less [of v, where 'a = nat] by simp
  also have "\<dots> < (2 :: nat) ^ 53" by simp
  finally have m: "unat v < 2 ^ 53" .
  have "(2 :: real) powr real_of_int (- 32) = 1 / 2 ^ 32"
    by (simp add: powr_minus_divide powr_realpow [symmetric])
  then have "u01_of v = real (unat v) * 2 powr real_of_int (- 32)"
    by (simp only: u01_of_def) simp
  with m show ?thesis
    by (intro exI [of _ "unat v"] exI [of _ "- 32"]) simp
qed

lemma u01_range: "0 \<le> u01_of v \<and> u01_of v < 1"
proof -
  have "unat v < 4294967296"
    using unsigned_less [of v, where 'a = nat] by simp
  then have "real (unat v) < 4294967296"
    by (simp only: of_nat_less_numeral_iff)
  moreover have "0 \<le> real (unat v)"
    by (rule of_nat_0_le_iff)
  moreover have "\<And>r :: real. 0 \<le> r \<Longrightarrow> r < 4294967296
      \<Longrightarrow> 0 \<le> r / 4294967296 \<and> r / 4294967296 < 1"
    by simp
  ultimately show ?thesis
    by (simp only: u01_of_def)
qed

text \<open>
  Claim C5. Every value that \<^verbatim>\<open>stdin_u01\<close> returns is the draw of \<^verbatim>\<open>read_uint32\<close> divided
  by \<open>2^32\<close>, and lies in \<open>[0, 1)\<close>; the draw \<open>0x00000000\<close> gives exactly 0 and the draw
  \<open>0xFFFFFFFF\<close> a value below 1. By \<open>u01_is_binary64\<close> the quotient is a binary64 number,
  so the value of type \<^verbatim>\<open>double\<close> that the C function returns is this quotient itself.
\<close>

theorem stdin_u01_unit_interval:
  "(\<forall>s x s'. stdin_u01 s = Inr (x, s') \<longrightarrow>
      (\<exists>v. read_uint32 s = Inr (v, s') \<and> x = real (unat v) / 2 ^ 32 \<and> 0 \<le> x \<and> x < 1))
   \<and> u01_of 0x00000000 = 0
   \<and> u01_of 0xFFFFFFFF < 1"
proof (intro conjI allI impI)
  fix s x s'
  assume a: "stdin_u01 s = Inr (x, s')"
  then obtain v where r: "read_uint32 s = Inr (v, s')" and x: "x = u01_of v"
    by (auto simp: stdin_u01_def split: sum.splits)
  from x u01_range [of v] u01_quotient [of v]
  have "x = real (unat v) / 2 ^ 32 \<and> 0 \<le> x \<and> x < 1" by simp
  with r show "\<exists>v. read_uint32 s = Inr (v, s') \<and> x = real (unat v) / 2 ^ 32 \<and> 0 \<le> x \<and> x < 1"
    by blast
next
  show "u01_of 0x00000000 = 0" by (simp add: u01_of_def)
next
  show "u01_of 0xFFFFFFFF < 1" by (simp add: u01_of_def)
qed

theorem stdin_u01_unit_interval_witness:
  "\<exists>x s'. stdin_u01 (initial_reader [[0xFF, 0xFF, 0xFF, 0xFF]]) = Inr (x, s')
         \<and> x = 4294967295 / 4294967296 \<and> 0 \<le> x \<and> x < 1"
proof -
  let ?s = "initial_reader [[0xFF, 0xFF, 0xFF, 0xFF]]"
  have ok: "reader_ok ?s"
    by (simp add: reader_ok_def initial_reader_def)
  have u: "unread ?s = 0xFF # 0xFF # 0xFF # 0xFF # []"
    by (simp add: unread_def initial_reader_def)
  from read_uint32_ok [OF ok u] obtain s' where r: "read_uint32 ?s = Inr (4294967295, s')"
    by auto
  then have c: "stdin_u01 ?s = Inr (u01_of 4294967295, s')"
    by (simp add: stdin_u01_def)
  with stdin_u01_unit_interval
  have b: "0 \<le> u01_of 4294967295 \<and> u01_of 4294967295 < 1"
    by blast
  have e: "u01_of 4294967295 = 4294967295 / 4294967296"
    by (simp add: u01_of_def)
  from c b show ?thesis
    unfolding e by blast
qed

section \<open>Bounds of the buffer indices\<close>

lemma refill_buffer_bounds:
  assumes "length (buffer s) = BUFFER_SIZE"
  shows "length (buffer (snd (refill_buffer s))) = BUFFER_SIZE
       \<and> buffer_len (snd (refill_buffer s)) \<le> BUFFER_SIZE
       \<and> buffer_pos (snd (refill_buffer s)) = 0
       \<and> fst (refill_buffer s) = (0 < buffer_len (snd (refill_buffer s)))"
proof -
  obtain got rest where fr: "fread BUFFER_SIZE (stdin s) = (got, rest)"
    by (cases "fread BUFFER_SIZE (stdin s)")
  from fread_length [OF fr] assms show ?thesis
    by (simp add: refill_buffer_def fr)
qed

lemma next_byte_bounds:
  assumes len: "length (buffer s) = BUFFER_SIZE" and le: "buffer_len s \<le> BUFFER_SIZE"
    and n: "next_byte s = Inr (b, s')"
  shows "length (buffer s') = BUFFER_SIZE \<and> buffer_len s' \<le> BUFFER_SIZE
       \<and> buffer_pos s' \<le> buffer_len s'"
proof (cases "buffer_len s \<le> buffer_pos s")
  case True
  obtain ok s1 where r: "refill_buffer s = (ok, s1)"
    by (cases "refill_buffer s")
  from refill_buffer_bounds [OF len] r
  have b: "length (buffer s1) = BUFFER_SIZE" "buffer_len s1 \<le> BUFFER_SIZE"
    "buffer_pos s1 = 0" "ok = (0 < buffer_len s1)"
    by simp_all
  from n True r have "ok" and "s' = s1\<lparr>buffer_pos := buffer_pos s1 + 1\<rparr>"
    by (auto simp: next_byte_def split: if_splits)
  with b show ?thesis by simp
next
  case False
  with n have "s' = s\<lparr>buffer_pos := buffer_pos s + 1\<rparr>"
    by (simp add: next_byte_def)
  with False len le show ?thesis by simp
qed

lemma read_uint32_loop_bounds:
  "length (buffer s) = BUFFER_SIZE \<Longrightarrow> buffer_len s \<le> BUFFER_SIZE \<Longrightarrow> i < 4 \<Longrightarrow>
   read_uint32_loop i v s = Inr (w, s') \<Longrightarrow>
   length (buffer s') = BUFFER_SIZE \<and> buffer_len s' \<le> BUFFER_SIZE \<and> buffer_pos s' \<le> buffer_len s'"
proof (induction i v s rule: read_uint32_loop.induct)
  case (1 i v s)
  from "1.prems"(3,4) obtain b s1 where
    n: "next_byte s = Inr (b, s1)"
    and l: "read_uint32_loop (i + 1) (v OR push_bit (i * 8) (ucast b)) s1 = Inr (w, s')"
    by (subst (asm) read_uint32_loop.simps) (auto split: sum.splits)
  from next_byte_bounds [OF "1.prems"(1,2) n]
  have b1: "length (buffer s1) = BUFFER_SIZE" "buffer_len s1 \<le> BUFFER_SIZE"
    "buffer_pos s1 \<le> buffer_len s1"
    by simp_all
  show ?case
  proof (cases "i + 1 < 4")
    case True
    from "1.IH" [OF "1.prems"(3) n refl b1(1,2) True l] show ?thesis .
  next
    case False
    with l have "s' = s1" by (simp add: loop_done)
    with b1 show ?thesis by simp
  qed
qed

text \<open>
  Claim C6, as the code has it. In every reachable state of the reader the array holds
  \<open>BUFFER_SIZE\<close> bytes and \<^verbatim>\<open>buffer_len\<close> is at most \<open>BUFFER_SIZE\<close>; \<^verbatim>\<open>buffer_pos\<close> is at
  most \<^verbatim>\<open>buffer_len\<close> in every reachable state except the initial one, which starts with
  \<^verbatim>\<open>buffer_pos = BUFFER_SIZE\<close> and \<^verbatim>\<open>buffer_len = 0\<close> to trigger the first read.
\<close>

theorem reader_invariant:
  assumes "reachable cs s"
  shows "length (buffer s) = BUFFER_SIZE \<and> buffer_len s \<le> BUFFER_SIZE
       \<and> (buffer_pos s \<le> buffer_len s \<or> s = initial_reader cs)"
  using assms
proof (induction rule: reachable.induct)
  case start
  show ?case by (simp add: initial_reader_def)
next
  case (refill s s')
  from refill.IH have "length (buffer s) = BUFFER_SIZE" by simp
  from refill_buffer_bounds [OF this] refill.hyps(3) show ?case by simp
next
  case (fetch s b s')
  from fetch.IH have "length (buffer s) = BUFFER_SIZE" and "buffer_len s \<le> BUFFER_SIZE"
    by simp_all
  from next_byte_bounds [OF this fetch.hyps(2)] show ?case by simp
next
  case (draw s v s')
  from draw.IH have "length (buffer s) = BUFFER_SIZE" and "buffer_len s \<le> BUFFER_SIZE"
    by simp_all
  moreover from draw.hyps(2) have "read_uint32_loop 0 0 s = Inr (v, s')"
    by (simp add: read_uint32_def)
  ultimately show ?case
    using read_uint32_loop_bounds [of s 0 0 v s'] by simp
qed

theorem reader_invariant_witness:
  "reachable [[0x01, 0x02]] (snd (refill_buffer (initial_reader [[0x01, 0x02]])))
   \<and> buffer_len (snd (refill_buffer (initial_reader [[0x01, 0x02]]))) = 2
   \<and> buffer_pos (snd (refill_buffer (initial_reader [[0x01, 0x02]]))) = 0
   \<and> length (buffer (snd (refill_buffer (initial_reader [[0x01, 0x02]])))) = BUFFER_SIZE
   \<and> buffer_len (snd (refill_buffer (initial_reader [[0x01, 0x02]]))) \<le> BUFFER_SIZE
   \<and> (buffer_pos (snd (refill_buffer (initial_reader [[0x01, 0x02]])))
        \<le> buffer_len (snd (refill_buffer (initial_reader [[0x01, 0x02]])))
      \<or> snd (refill_buffer (initial_reader [[0x01, 0x02]])) = initial_reader [[0x01, 0x02]])"
proof -
  let ?s0 = "initial_reader [[0x01, 0x02]]"
  have "buffer_len ?s0 \<le> buffer_pos ?s0"
    by (simp add: initial_reader_def)
  with reachable.start [of "[[0x01, 0x02]]"]
  have r: "reachable [[0x01, 0x02]] (snd (refill_buffer ?s0))"
    by (rule reachable.refill) simp
  have "buffer_len (snd (refill_buffer ?s0)) = 2" and "buffer_pos (snd (refill_buffer ?s0)) = 0"
    by (simp_all add: refill_buffer_def initial_reader_def BUFFER_SIZE_def)
  with r reader_invariant [OF r] show ?thesis by simp
qed

text \<open>
  The invariant \<open>position \<le> length\<close> of claim C6 fails in the initial state, where
  \<^verbatim>\<open>buffer_pos\<close> is 4096 and \<^verbatim>\<open>buffer_len\<close> is 0.
\<close>

theorem initial_position_exceeds_length:
  "reachable [] (initial_reader [])
   \<and> \<not> buffer_pos (initial_reader []) \<le> buffer_len (initial_reader [])"
proof
  show "reachable [] (initial_reader [])"
    by (rule reachable.start)
  show "\<not> buffer_pos (initial_reader []) \<le> buffer_len (initial_reader [])"
    by (simp add: initial_reader_def BUFFER_SIZE_def)
qed

section \<open>The scan of the arguments as a recursion over the list\<close>

lemma parse_args_scan:
  "i \<le> length argv \<Longrightarrow> parse_args argv i name t = scan (argv ! 0) (drop i argv) name t"
proof (induction argv i name t rule: parse_args.induct)
  case (1 argv i name t)
  show ?case
  proof (cases "i < length argv")
    case False
    with "1.prems" show ?thesis
      by (subst parse_args.simps) (simp add: scan.simps)
  next
    case True
    then have d: "drop i argv = argv ! i # drop (i + 1) argv"
      by (simp add: Cons_nth_drop_Suc)
    show ?thesis
    proof (cases "i + 1 < length argv")
      case False
      with True have e: "drop (i + 1) argv = []" by simp
      from True False show ?thesis
        using "1.IH"(1,2,3,5,6)
        by (subst parse_args.simps, subst d, subst scan.simps) (simp add: e scan.simps(1))
    next
      case T2: True
      then have d2: "drop (Suc i) argv = argv ! Suc i # drop (Suc (Suc i)) argv"
        by (simp add: Cons_nth_drop_Suc)
      from True T2 show ?thesis
        using "1.IH"(1,2,3,4,6)
        by (subst parse_args.simps, subst d, subst scan.simps) (simp add: d2 del: drop_Suc_Cons)
    qed
  qed
qed

section \<open>What the scan computes\<close>

lemma flag_args_Cons_flag:
  "a \<noteq> ''-n'' \<Longrightarrow> a \<noteq> ''--name'' \<Longrightarrow> flag_args (a # as) = a # flag_args as"
  by (cases as) simp_all

lemma last_battery_Nil: "last_battery t [] = t"
  by (simp add: last_battery_def)

lemma last_battery_Cons:
  "last_battery t (a # as) = last_battery (if is_battery_flag a then battery_code a else t) as"
  by (cases "filter is_battery_flag as") (simp_all add: last_battery_def)

lemma scan_flag_args:
  "scan prog as name t =
     (if ''-h'' \<in> set (flag_args as) \<or> ''--help'' \<in> set (flag_args as) then Inl (usage prog)
      else Inr (fst (projr (scan prog as name t)), last_battery t (flag_args as)))"
proof (induction prog as name t rule: scan.induct)
  case (1 prog name t)
  show ?case by (simp add: scan.simps last_battery_Nil)
next
  case (2 prog a as name t)
  define S where "S \<longleftrightarrow> a = ''-s'' \<or> a = ''--small''"
  define M where "M \<longleftrightarrow> a = ''-m'' \<or> a = ''--medium''"
  define B where "B \<longleftrightarrow> a = ''-b'' \<or> a = ''--big''"
  define N where "N \<longleftrightarrow> a = ''-n'' \<or> a = ''--name''"
  define H where "H \<longleftrightarrow> a = ''-h'' \<or> a = ''--help''"
  consider (small) "S" | (medium) "\<not> S" "M" | (big) "\<not> S" "\<not> M" "B"
    | (name) "\<not> S" "\<not> M" "\<not> B" "N" | (hlp) "\<not> S" "\<not> M" "\<not> B" "\<not> N" "H"
    | (other) "\<not> S" "\<not> M" "\<not> B" "\<not> N" "\<not> H"
    by blast
  then show ?case
  proof cases
    case small
    then have c: "a = ''-s'' \<or> a = ''--small''"
      by (simp only: S_def)
    then have f: "flag_args (a # as) = a # flag_args as"
      and b: "is_battery_flag a" "battery_code a = 0"
      and s: "scan prog (a # as) name t = scan prog as name 0"
      and h: "a \<noteq> ''-h''" "a \<noteq> ''--help''"
      by (auto simp: flag_args_Cons_flag is_battery_flag_def battery_code_def scan.simps)
    from "2.IH"(1) [OF c] show ?thesis
      by (simp only: f s last_battery_Cons b if_True set_simps insert_iff h [symmetric] simp_thms)
  next
    case medium
    then have c: "\<not> (a = ''-s'' \<or> a = ''--small'')" "a = ''-m'' \<or> a = ''--medium''"
      by (simp_all only: S_def M_def not_False_eq_True)
    then have f: "flag_args (a # as) = a # flag_args as"
      and b: "is_battery_flag a" "battery_code a = 1"
      and s: "scan prog (a # as) name t = scan prog as name 1"
      and h: "a \<noteq> ''-h''" "a \<noteq> ''--help''"
      by (auto simp: flag_args_Cons_flag is_battery_flag_def battery_code_def scan.simps)
    from "2.IH"(2) [OF c] show ?thesis
      by (simp only: f s last_battery_Cons b if_True set_simps insert_iff h [symmetric] simp_thms)
  next
    case big
    then have c: "\<not> (a = ''-s'' \<or> a = ''--small'')" "\<not> (a = ''-m'' \<or> a = ''--medium'')"
      "a = ''-b'' \<or> a = ''--big''"
      by (simp_all only: S_def M_def B_def not_False_eq_True)
    then have f: "flag_args (a # as) = a # flag_args as"
      and b: "is_battery_flag a" "battery_code a = 2"
      and s: "scan prog (a # as) name t = scan prog as name 2"
      and h: "a \<noteq> ''-h''" "a \<noteq> ''--help''"
      by (auto simp: flag_args_Cons_flag is_battery_flag_def battery_code_def scan.simps)
    from "2.IH"(3) [OF c] show ?thesis
      by (simp only: f s last_battery_Cons b if_True set_simps insert_iff h [symmetric] simp_thms)
  next
    case name
    then have c: "\<not> (a = ''-s'' \<or> a = ''--small'')" "\<not> (a = ''-m'' \<or> a = ''--medium'')"
      "\<not> (a = ''-b'' \<or> a = ''--big'')" "a = ''-n'' \<or> a = ''--name''"
      by (simp_all only: S_def M_def B_def N_def not_False_eq_True)
    show ?thesis
    proof (cases as)
      case Nil
      with c show ?thesis
        by (auto simp: scan.simps last_battery_Nil)
    next
      case (Cons v rest)
      with c have f: "flag_args (a # as) = flag_args rest"
        and s: "scan prog (a # as) name t = scan prog rest v t"
        by (auto simp: scan.simps)
      from "2.IH"(4) [OF c Cons] show ?thesis
        by (simp only: f s)
    qed
  next
    case hlp
    then have c: "\<not> (a = ''-n'' \<or> a = ''--name'')" "a = ''-h'' \<or> a = ''--help''"
      by (simp_all only: N_def H_def not_False_eq_True)
    then have f: "flag_args (a # as) = a # flag_args as"
      and s: "scan prog (a # as) name t = Inl (usage prog)"
      by (auto simp: flag_args_Cons_flag scan.simps)
    from c(2) show ?thesis
      by (simp only: f s) auto
  next
    case other
    then have c: "\<not> (a = ''-s'' \<or> a = ''--small'')" "\<not> (a = ''-m'' \<or> a = ''--medium'')"
        "\<not> (a = ''-b'' \<or> a = ''--big'')" "\<not> (a = ''-n'' \<or> a = ''--name'')"
        "\<not> (a = ''-h'' \<or> a = ''--help'')"
      by (simp_all only: S_def M_def B_def N_def H_def not_False_eq_True)
    then have f: "flag_args (a # as) = a # flag_args as"
      and b: "\<not> is_battery_flag a"
      and s: "scan prog (a # as) name t = scan prog as name t"
      and h: "a \<noteq> ''-h''" "a \<noteq> ''--help''"
      by (simp_all add: flag_args_Cons_flag is_battery_flag_def scan.simps)
    from "2.IH"(5) [OF c] show ?thesis
      by (simp only: f s last_battery_Cons b if_False set_simps insert_iff h [symmetric] simp_thms)
  qed
qed

section \<open>The help flag\<close>

lemma parse_args_from_1:
  "parse_args (prog # args) 1 name t = scan prog args name t"
  using parse_args_scan [of 1 "prog # args" name t] by simp

lemma parse_args_from_Suc_0:
  "parse_args (prog # args) (Suc 0) name t = scan prog args name t"
  using parse_args_from_1 [of prog args name t] by simp

lemma read_uint32_at_end: "read_uint32 (initial_reader []) = Inl stdin_exhausted"
  by (rule read_uint32_short) (simp_all add: reader_ok_def unread_def initial_reader_def)

text \<open>
  Claim C8, as the code has it. When \<^verbatim>\<open>-h\<close> or \<^verbatim>\<open>--help\<close> is among the arguments that the
  scan reads as flags (it is not the value that a preceding \<^verbatim>\<open>-n\<close> or \<^verbatim>\<open>--name\<close> takes),
  \<^verbatim>\<open>main\<close> prints the usage text and returns 0, whatever the batteries would do and with the
  reader left as it was: no battery runs and nothing is read from standard input.
\<close>

theorem help_flag_prints_usage:
  assumes "''-h'' \<in> set (flag_args args) \<or> ''--help'' \<in> set (flag_args args)"
  shows "main (prog # args) malloc_ok run rd = Return (usage prog) 0 rd"
proof -
  from assms have "scan prog args ''Rust RNG'' 2 = Inl (usage prog)"
    by (subst scan_flag_args) (simp only: if_True)
  then show ?thesis
    by (simp add: main_def parse_args_from_Suc_0)
qed

theorem help_flag_prints_usage_witness:
  "(''-h'' \<in> set (flag_args [''-s'', ''--help'']) \<or> ''--help'' \<in> set (flag_args [''-s'', ''--help'']))
   \<and> main (''bigcrush_wrapper'' # [''-s'', ''--help'']) True (calling_battery [GetBits])
        (initial_reader [[0x01, 0x02, 0x03, 0x04]])
     = Return (usage ''bigcrush_wrapper'') 0 (initial_reader [[0x01, 0x02, 0x03, 0x04]])"
proof -
  have h: "''-h'' \<in> set (flag_args [''-s'', ''--help''])
         \<or> ''--help'' \<in> set (flag_args [''-s'', ''--help''])"
    by simp
  from help_flag_prints_usage [OF h] h show ?thesis by blast
qed

text \<open>
  Claim C8 as stated fails: in \<^verbatim>\<open>bigcrush_wrapper -n --help\<close> the argument \<^verbatim>\<open>--help\<close> is
  taken as the generator name. BigCrush is started on the generator named \<^verbatim>\<open>--help\<close>, and
  with an empty standard input its first draw ends the process with status 1.
\<close>

theorem help_after_name_runs_battery:
  "main [''bigcrush_wrapper'', ''-n'', ''--help''] True (calling_battery [GetBits])
     (initial_reader [])
   = Exited (running BigCrush ''--help'') stdin_exhausted"
proof -
  have "parse_args [''bigcrush_wrapper'', ''-n'', ''--help''] 1 ''Rust RNG'' 2
      = Inr (''--help'', 2)"
    by (simp add: parse_args_from_Suc_0 scan.simps)
  then show ?thesis
    by (simp add: main_def create_stdin_gen_def dispatch_def launch_def calling_battery_def
        stdin_bits_def read_uint32_at_end)
qed

section \<open>The name flag and the battery flags\<close>

lemma scan_Cons_flag:
  "\<not> (x = ''-n'' \<or> x = ''--name'') \<Longrightarrow>
   scan prog (x # ys) name t =
     (if x = ''-s'' \<or> x = ''--small'' then scan prog ys name 0
      else if x = ''-m'' \<or> x = ''--medium'' then scan prog ys name 1
      else if x = ''-b'' \<or> x = ''--big'' then scan prog ys name 2
      else if x = ''-h'' \<or> x = ''--help'' then Inl (usage prog)
      else scan prog ys name t)"
  by (subst scan.simps) simp

lemma scan_Cons_name_Cons:
  "x = ''-n'' \<or> x = ''--name'' \<Longrightarrow> scan prog (x # v # ys) name t = scan prog ys v t"
  by (subst scan.simps) auto

lemma scan_name_Nil:
  "x = ''-n'' \<or> x = ''--name'' \<Longrightarrow> scan prog [x] name t = Inr (name, t)"
  by (subst scan.simps) auto

lemma scan_pending_name:
  "pending_name (as @ [a]) \<Longrightarrow> scan prog (as @ [a]) name t = scan prog as name t"
proof (induction as arbitrary: name t rule: pending_name.induct)
  case 1
  then have "a = ''-n'' \<or> a = ''--name''" by simp
  then show ?case
    by (simp only: append_Nil scan_name_Nil scan.simps(1))
next
  case (2 x)
  from "2.prems" have n: "\<not> (x = ''-n'' \<or> x = ''--name'')" and a: "a = ''-n'' \<or> a = ''--name''"
    by (simp_all split: if_splits)
  have "\<And>name t. scan prog [a] name t = scan prog [] name t"
    using a by (simp only: scan_name_Nil scan.simps(1))
  then show ?case
    by (simp only: append_Cons append_Nil scan_Cons_flag [OF n])
next
  case (3 x v rest)
  show ?case
  proof (cases "x = ''-n'' \<or> x = ''--name''")
    case n: True
    with "3.prems" have "pending_name (rest @ [a])" by simp
    from "3.IH"(1) [OF n this] show ?thesis
      by (simp only: append_Cons scan_Cons_name_Cons [OF n])
  next
    case n: False
    with "3.prems" have "pending_name ((v # rest) @ [a])" by simp
    from "3.IH"(2) [OF n this]
    have "\<And>name t. scan prog (v # rest @ [a]) name t = scan prog (v # rest) name t"
      by (simp only: append_Cons)
    then show ?thesis
      by (simp only: append_Cons scan_Cons_flag [OF n])
  qed
qed

text \<open>
  Claim C9, as the code has it. When the last argument is \<^verbatim>\<open>-n\<close> or \<^verbatim>\<open>--name\<close> and the
  scan reads it as a flag (it is not itself the value that a \<^verbatim>\<open>-n\<close> or \<^verbatim>\<open>--name\<close>
  before it takes), the scan of the whole command line ends as the scan of the command
  line without it: the same help text, or the same name (the one set before, or the
  default) and the same \<^verbatim>\<open>test_type\<close>; nothing is consumed, and \<^verbatim>\<open>main\<close> goes on as it
  does without that argument.
\<close>

theorem final_name_flag_is_ignored:
  assumes "a = ''-n'' \<or> a = ''--name''" and "pending_name (args @ [a])"
  shows "parse_args (prog # args @ [a]) 1 name test_type
           = parse_args (prog # args) 1 name test_type
       \<and> main (prog # args @ [a]) malloc_ok run rd = main (prog # args) malloc_ok run rd"
proof -
  have "\<And>name test_type. parse_args (prog # args @ [a]) 1 name test_type
           = parse_args (prog # args) 1 name test_type"
    by (simp only: parse_args_from_1 scan_pending_name [OF assms(2)])
  then show ?thesis
    by (simp only: main_def)
qed

theorem final_name_flag_is_ignored_witness:
  "(''--name'' = ''-n'' \<or> ''--name'' = ''--name'')
   \<and> pending_name ([''-n'', ''foo'', ''-s''] @ [''--name''])
   \<and> parse_args (''bigcrush_wrapper'' # [''-n'', ''foo'', ''-s''] @ [''--name'']) 1 ''Rust RNG'' 2
     = Inr (''foo'', 0)
   \<and> parse_args (''bigcrush_wrapper'' # [''-n'', ''foo'', ''-s'']) 1 ''Rust RNG'' 2
     = Inr (''foo'', 0)
   \<and> main (''bigcrush_wrapper'' # [''-n'', ''foo'', ''-s''] @ [''--name'']) True
        (calling_battery []) (initial_reader [])
     = main (''bigcrush_wrapper'' # [''-n'', ''foo'', ''-s'']) True
        (calling_battery []) (initial_reader [])"
proof -
  have a: "''--name'' = ''-n'' \<or> ''--name'' = ''--name''"
    by simp
  have p: "pending_name ([''-n'', ''foo'', ''-s''] @ [''--name''])"
    by simp
  have e: "parse_args (''bigcrush_wrapper'' # [''-n'', ''foo'', ''-s'']) 1 ''Rust RNG'' 2
             = Inr (''foo'', 0)"
    by (simp add: parse_args_from_Suc_0 scan.simps)
  from final_name_flag_is_ignored [OF a p, of "''bigcrush_wrapper''" "''Rust RNG''" 2 True
      "calling_battery []" "initial_reader []"] a p e
  show ?thesis by (simp only: simp_thms)
qed

text \<open>
  Claim C9 as stated fails: in \<^verbatim>\<open>bigcrush_wrapper -n -n\<close> the last argument is \<^verbatim>\<open>-n\<close> and
  nothing follows it, but the \<^verbatim>\<open>-n\<close> before it takes it as the name. The generator is
  named \<^verbatim>\<open>-n\<close>, where \<^verbatim>\<open>bigcrush_wrapper -n\<close> keeps \<^verbatim>\<open>Rust RNG\<close>.
\<close>

theorem final_name_flag_taken_as_name:
  "main [''bigcrush_wrapper'', ''-n'', ''-n''] True (calling_battery []) (initial_reader [])
     = Return (running BigCrush ''-n'') 0 (initial_reader [])
   \<and> main [''bigcrush_wrapper'', ''-n''] True (calling_battery []) (initial_reader [])
     = Return (running BigCrush ''Rust RNG'') 0 (initial_reader [])"
proof
  have "parse_args [''bigcrush_wrapper'', ''-n'', ''-n''] 1 ''Rust RNG'' 2 = Inr (''-n'', 2)"
    by (simp add: parse_args_from_Suc_0 scan.simps)
  then show "main [''bigcrush_wrapper'', ''-n'', ''-n''] True (calling_battery []) (initial_reader [])
     = Return (running BigCrush ''-n'') 0 (initial_reader [])"
    by (simp add: main_def create_stdin_gen_def dispatch_def launch_def calling_battery_def)
next
  have "parse_args [''bigcrush_wrapper'', ''-n''] 1 ''Rust RNG'' 2 = Inr (''Rust RNG'', 2)"
    by (simp add: parse_args_from_Suc_0 scan.simps)
  then show "main [''bigcrush_wrapper'', ''-n''] True (calling_battery []) (initial_reader [])
     = Return (running BigCrush ''Rust RNG'') 0 (initial_reader [])"
    by (simp add: main_def create_stdin_gen_def dispatch_def launch_def calling_battery_def)
qed




end
